theory Spec2Isabelle
  imports Main "HOL-Library.Product_Lexorder"
begin

section \<open>The Minesweeper knowledge base (minesweeper.py)\<close>

text \<open>
  A cell is a Python tuple \<open>(i, j)\<close> of unbounded integers. A Python \<open>set\<close> of cells is a
  HOL set; every set the program builds is finite, and \<open>len\<close> is \<open>card\<close>.
\<close>

type_synonym cell = "int \<times> int"

subsection \<open>class Sentence\<close>

text \<open>
  \<open>Sentence.__init__\<close> stores a copy of the cells and the count, with no check.
  \<open>__eq__\<close> compares cells and count, which is equality of the record.
\<close>

record sentence =
  cells :: "cell set"
  count :: int

definition known_mines :: "sentence \<Rightarrow> cell set" where
  "known_mines s =
     (if int (card (cells s)) = count s \<and> count s \<noteq> 0 then cells s else {})"

definition known_safes :: "sentence \<Rightarrow> cell set" where
  "known_safes s = (if count s = 0 then cells s else {})"

text \<open>\<open>Sentence.mark_mine\<close> and \<open>Sentence.mark_safe\<close>.\<close>

definition sentence_mark_mine :: "cell \<Rightarrow> sentence \<Rightarrow> sentence" where
  "sentence_mark_mine c s =
     (if c \<in> cells s then s\<lparr>cells := cells s - {c}, count := count s - 1\<rparr> else s)"

definition sentence_mark_safe :: "cell \<Rightarrow> sentence \<Rightarrow> sentence" where
  "sentence_mark_safe c s =
     (if c \<in> cells s then s\<lparr>cells := cells s - {c}\<rparr> else s)"

subsection \<open>class MinesweeperAI\<close>

record minesweeper_ai =
  height :: int
  width :: int
  moves_made :: "cell set"
  mines :: "cell set"
  safes :: "cell set"
  knowledge :: "sentence list"

text \<open>\<open>MinesweeperAI.__init__\<close>.\<close>

definition init_ai :: "int \<Rightarrow> int \<Rightarrow> minesweeper_ai" where
  "init_ai h w =
     \<lparr>height = h, width = w, moves_made = {}, mines = {}, safes = {}, knowledge = []\<rparr>"

text \<open>
  \<open>MinesweeperAI.mark_mine\<close> and \<open>MinesweeperAI.mark_safe\<close>: the cell is added to the
  set and every stored sentence is updated in place. No sentence object is stored twice
  in the list, so the in-place updates are a \<open>map\<close>.
\<close>

definition mark_mine :: "cell \<Rightarrow> minesweeper_ai \<Rightarrow> minesweeper_ai" where
  "mark_mine c ai =
     ai\<lparr>mines := insert c (mines ai), knowledge := map (sentence_mark_mine c) (knowledge ai)\<rparr>"

definition mark_safe :: "cell \<Rightarrow> minesweeper_ai \<Rightarrow> minesweeper_ai" where
  "mark_safe c ai =
     ai\<lparr>safes := insert c (safes ai), knowledge := map (sentence_mark_safe c) (knowledge ai)\<rparr>"

subsection \<open>add_knowledge: the new sentence\<close>

text \<open>
  The two nested \<open>range\<close> loops visit the 3x3 block around the cell, the cell itself
  included, row by row.
\<close>

definition block :: "cell \<Rightarrow> cell list" where
  "block c = concat (map (\<lambda>i. map (\<lambda>j. (i, j)) [snd c - 1 .. snd c + 1])
                         [fst c - 1 .. fst c + 1])"

definition in_bounds :: "int \<Rightarrow> int \<Rightarrow> cell \<Rightarrow> bool" where
  "in_bounds h w c \<longleftrightarrow> 0 \<le> fst c \<and> fst c < h \<and> 0 \<le> snd c \<and> snd c < w"

text \<open>
  One iteration of the inner loop body, on the pair \<open>(cells_set, count)\<close>: the count is
  decremented for a known mine, whether or not the cell is on the board; the cell is
  added when it is on the board and is neither a known safe cell nor a known mine.
\<close>

definition neighbor_step :: "minesweeper_ai \<Rightarrow> cell \<Rightarrow> cell set \<times> int \<Rightarrow> cell set \<times> int" where
  "neighbor_step ai nc acc =
     (let n = (if nc \<in> mines ai then snd acc - 1 else snd acc);
          cs = (if in_bounds (height ai) (width ai) nc \<and> nc \<notin> safes ai \<and> nc \<notin> mines ai
                then insert nc (fst acc) else fst acc)
      in (cs, n))"

definition new_sentence :: "minesweeper_ai \<Rightarrow> cell \<Rightarrow> int \<Rightarrow> sentence" where
  "new_sentence ai c n =
     (let acc = fold (neighbor_step ai) (block c) ({}, n)
      in \<lparr>cells = fst acc, count = snd acc\<rparr>)"

text \<open>
  The part of \<open>add_knowledge\<close> before the \<open>while True\<close> loop: record the move, mark the
  cell safe, build the new sentence and append it.
\<close>

definition integrate :: "minesweeper_ai \<Rightarrow> cell \<Rightarrow> int \<Rightarrow> minesweeper_ai" where
  "integrate ai c n =
     (let ai1 = ai\<lparr>moves_made := insert c (moves_made ai)\<rparr>;
          ai2 = mark_safe c ai1
      in ai2\<lparr>knowledge := knowledge ai2 @ [new_sentence ai2 c n]\<rparr>)"

subsection \<open>add_knowledge: one pass of the loop\<close>

text \<open>
  The first \<open>for\<close> loop of a pass collects the known mines and the known safe cells of
  all sentences in two fresh sets.
\<close>

definition collect :: "sentence list \<Rightarrow> cell set \<times> cell set" where
  "collect kn =
     fold (\<lambda>s acc. (fst acc \<union> known_mines s, snd acc \<union> known_safes s)) kn ({}, {})"

text \<open>
  \<open>for mine in mines: self.mark_mine(mine)\<close> iterates over a Python set, in an order the
  language does not fix; the model takes the cells in increasing order.
\<close>

definition mark_mines :: "cell set \<Rightarrow> minesweeper_ai \<Rightarrow> minesweeper_ai" where
  "mark_mines ms ai = (if ms \<noteq> {} then fold mark_mine (sorted_list_of_set ms) ai else ai)"

definition mark_safes :: "cell set \<Rightarrow> minesweeper_ai \<Rightarrow> minesweeper_ai" where
  "mark_safes ss ai = (if ss \<noteq> {} then fold mark_safe (sorted_list_of_set ss) ai else ai)"

text \<open>
  \<open>for sentence in self.knowledge: if len(sentence.cells) == 0:
  self.knowledge.remove(sentence)\<close>. The list is changed while it is iterated: the
  iterator keeps an index \<open>i\<close>, reads \<open>knowledge[i]\<close> while \<open>i < len(knowledge)\<close> and then
  increments \<open>i\<close>; \<open>list.remove\<close> deletes the first element equal to its argument.
\<close>

function remove_empty :: "nat \<Rightarrow> sentence list \<Rightarrow> sentence list" where
  "remove_empty i kn =
     (if i < length kn
      then (if card (cells (kn ! i)) = 0
            then remove_empty (i + 1) (remove1 (kn ! i) kn)
            else remove_empty (i + 1) kn)
      else kn)"
  by pat_completeness auto
termination
  by (relation "measure (\<lambda>(i, kn). length kn - i)") (auto simp: length_remove1)

declare remove_empty.simps [simp del]

text \<open>
  The subset rule: the two nested loops over the knowledge collect the inferred
  sentences in \<open>new_knowledge\<close>; the knowledge itself is not changed meanwhile.
\<close>

definition inferred :: "sentence \<Rightarrow> sentence \<Rightarrow> sentence" where
  "inferred s1 s2 = \<lparr>cells = cells s2 - cells s1, count = count s2 - count s1\<rparr>"

definition infer :: "sentence list \<Rightarrow> sentence list" where
  "infer kn =
     concat (map (\<lambda>s1. concat (map (\<lambda>s2.
       if cells s1 \<subseteq> cells s2 \<and> count s1 \<le> count s2 \<and> s1 \<noteq> s2
       then (if inferred s1 s2 \<notin> set kn then [inferred s1 s2] else [])
       else []) kn)) kn)"

text \<open>
  The state the subset rule sees in a pass: the collected mines and safe cells are
  marked, then the empty sentences are removed.
\<close>

definition before_infer :: "minesweeper_ai \<Rightarrow> minesweeper_ai" where
  "before_infer ai =
     (let ms = fst (collect (knowledge ai));
          ss = snd (collect (knowledge ai));
          ai2 = mark_safes ss (mark_mines ms ai)
      in ai2\<lparr>knowledge := remove_empty 0 (knowledge ai2)\<rparr>)"

text \<open>One pass of the \<open>while True\<close> loop; the second component is \<open>new_info\<close>.\<close>

definition pass :: "minesweeper_ai \<Rightarrow> minesweeper_ai \<times> bool" where
  "pass ai =
     (let ms = fst (collect (knowledge ai));
          ss = snd (collect (knowledge ai));
          ai3 = before_infer ai;
          new_knowledge = infer (knowledge ai3)
      in (ai3\<lparr>knowledge := knowledge ai3 @ new_knowledge\<rparr>,
          ms \<noteq> {} \<or> ss \<noteq> {} \<or> new_knowledge \<noteq> []))"

text \<open>
  The loop runs passes until one sets no \<open>new_info\<close>. It may run forever, which is the
  value \<open>None\<close>.
\<close>

partial_function (option) fixpoint :: "minesweeper_ai \<Rightarrow> minesweeper_ai option" where
  "fixpoint ai =
     (case pass ai of (ai', new_info) \<Rightarrow> if new_info then fixpoint ai' else Some ai')"

declare fixpoint.simps [code]

definition add_knowledge :: "minesweeper_ai \<Rightarrow> cell \<Rightarrow> int \<Rightarrow> minesweeper_ai option" where
  "add_knowledge ai c n = fixpoint (integrate ai c n)"

subsection \<open>Sequences of calls\<close>

text \<open>
  The public methods that change a \<open>MinesweeperAI\<close>, as values, and the state after a
  sequence of calls on it. A call of \<open>add_knowledge\<close> that does not return leaves no state.
\<close>

datatype call = Add_knowledge cell int | Mark_mine cell | Mark_safe cell

fun exec :: "minesweeper_ai \<Rightarrow> call \<Rightarrow> minesweeper_ai option" where
  "exec ai (Add_knowledge c n) = add_knowledge ai c n"
| "exec ai (Mark_mine c) = Some (mark_mine c ai)"
| "exec ai (Mark_safe c) = Some (mark_safe c ai)"

fun run :: "minesweeper_ai \<Rightarrow> call list \<Rightarrow> minesweeper_ai option" where
  "run ai [] = Some ai"
| "run ai (c # cs) = (case exec ai c of None \<Rightarrow> None | Some ai' \<Rightarrow> run ai' cs)"

subsection \<open>class Minesweeper: what the board reports\<close>

text \<open>
  The game keeps the mines as a set of cells and \<open>board[i][j]\<close> is \<open>True\<close> exactly for
  the cells of that set, so the board is modelled by the set \<open>M\<close> of its mines.
  \<open>Minesweeper.nearby_mines\<close> scans the 3x3 block, skips the cell itself and counts the
  mines that are on the board.
\<close>

definition nearby_mines :: "int \<Rightarrow> int \<Rightarrow> cell set \<Rightarrow> cell \<Rightarrow> int" where
  "nearby_mines h w M c =
     fold (\<lambda>nc n. if nc = c then n
                  else if in_bounds h w nc \<and> nc \<in> M then n + 1 else n) (block c) 0"

text \<open>
  A call is consistent with the board when it says what the board says: the cell of
  an observation is on the board and is no mine, and its count is the one the board
  reports; a cell marked as a mine is a mine and a cell marked safe is none.
\<close>

fun board_call :: "int \<Rightarrow> int \<Rightarrow> cell set \<Rightarrow> call \<Rightarrow> bool" where
  "board_call h w M (Add_knowledge c n) \<longleftrightarrow>
     in_bounds h w c \<and> c \<notin> M \<and> n = nearby_mines h w M c"
| "board_call h w M (Mark_mine c) \<longleftrightarrow> c \<in> M"
| "board_call h w M (Mark_safe c) \<longleftrightarrow> c \<notin> M"

text \<open>The cell a call passes.\<close>

fun call_cell :: "call \<Rightarrow> cell" where
  "call_cell (Add_knowledge c n) = c"
| "call_cell (Mark_mine c) = c"
| "call_cell (Mark_safe c) = c"

subsection \<open>Invariants of the knowledge base\<close>

text \<open>No sentence mentions a cell that is already classified as a mine or as safe.\<close>

definition separated :: "minesweeper_ai \<Rightarrow> bool" where
  "separated ai \<longleftrightarrow> (\<forall>s\<in>set (knowledge ai). cells s \<inter> (mines ai \<union> safes ai) = {})"

text \<open>The board size is unchanged and every cell the knowledge base holds is on the board.\<close>

definition bounded :: "int \<Rightarrow> int \<Rightarrow> minesweeper_ai \<Rightarrow> bool" where
  "bounded h w ai \<longleftrightarrow>
     height ai = h \<and> width ai = w \<and>
     (\<forall>x\<in>mines ai. in_bounds h w x) \<and> (\<forall>x\<in>safes ai. in_bounds h w x) \<and>
     (\<forall>s\<in>set (knowledge ai). \<forall>x\<in>cells s. in_bounds h w x)"

text \<open>
  The cells of the board, row by row, as \<open>make_random_move\<close> enumerates them.
\<close>

definition board_cells :: "int \<Rightarrow> int \<Rightarrow> cell set" where
  "board_cells h w = set (concat (map (\<lambda>i. map (\<lambda>j. (i, j)) [0 .. w - 1]) [0 .. h - 1]))"

text \<open>
  The knowledge is sound for a board with mines \<open>M\<close>: the known mines are mines, the known
  safe cells are not, and every sentence is a finite set of board cells together with the
  number of mines among them.
\<close>

definition sound :: "int \<Rightarrow> int \<Rightarrow> cell set \<Rightarrow> minesweeper_ai \<Rightarrow> bool" where
  "sound h w M ai \<longleftrightarrow>
     height ai = h \<and> width ai = w \<and> mines ai \<subseteq> M \<and> safes ai \<inter> M = {} \<and>
     (\<forall>s\<in>set (knowledge ai).
        finite (cells s) \<and> cells s \<subseteq> board_cells h w \<and> count s = int (card (cells s \<inter> M)))"

text \<open>
  The measure of the loop: the sentences that are true of the board and not empty, and
  the pair of the number of unclassified board cells and the number of such sentences that
  are not stored yet.
\<close>

definition candidates :: "int \<Rightarrow> int \<Rightarrow> cell set \<Rightarrow> sentence set" where
  "candidates h w M =
     (\<lambda>C. \<lparr>cells = C, count = int (card (C \<inter> M))\<rparr>) ` (Pow (board_cells h w) - {{}})"

definition progress :: "int \<Rightarrow> int \<Rightarrow> cell set \<Rightarrow> minesweeper_ai \<Rightarrow> nat \<times> nat" where
  "progress h w M ai =
     (card (board_cells h w - (mines ai \<union> safes ai)),
      card (candidates h w M - set (knowledge ai)))"

section \<open>Properties\<close>

subsection \<open>The loop: partial correctness\<close>

lemma fixpoint_invariant:
  assumes "fixpoint ai = Some r" and "P ai" and "\<And>a. P a \<Longrightarrow> P (fst (pass a))"
  shows "P r"
proof -
  have "P ai \<longrightarrow> P r"
  proof (rule fixpoint.raw_induct [where P = "\<lambda>a r. P a \<longrightarrow> P r", OF _ assms(1)])
    fix f :: "minesweeper_ai \<Rightarrow> minesweeper_ai option" and a r
    assume IH: "\<And>x y. f x = Some y \<Longrightarrow> P x \<longrightarrow> P y"
      and eq: "(case pass a of (ai', new_info) \<Rightarrow> if new_info then f ai' else Some ai') = Some r"
    show "P a \<longrightarrow> P r"
    proof
      assume "P a"
      then have step: "P (fst (pass a))" by (rule assms(3))
      show "P r"
      proof (cases "snd (pass a)")
        case True
        with eq have "f (fst (pass a)) = Some r"
          by (simp add: case_prod_beta)
        with IH step show ?thesis by blast
      next
        case False
        with eq have "r = fst (pass a)"
          by (simp add: case_prod_beta)
        with step show ?thesis by simp
      qed
    qed
  qed
  with assms(2) show ?thesis by blast
qed

subsection \<open>Marking cells\<close>

lemma set_sorted_list_subset: "set (sorted_list_of_set A) \<subseteq> A"
  by (cases "finite A") simp_all

lemma fold_mark_mine_fields [simp]:
  "height (fold mark_mine xs ai) = height ai"
  "width (fold mark_mine xs ai) = width ai"
  "moves_made (fold mark_mine xs ai) = moves_made ai"
  "safes (fold mark_mine xs ai) = safes ai"
  "mines (fold mark_mine xs ai) = mines ai \<union> set xs"
  by (induction xs arbitrary: ai) (auto simp: mark_mine_def)

lemma fold_mark_safe_fields [simp]:
  "height (fold mark_safe xs ai) = height ai"
  "width (fold mark_safe xs ai) = width ai"
  "moves_made (fold mark_safe xs ai) = moves_made ai"
  "mines (fold mark_safe xs ai) = mines ai"
  "safes (fold mark_safe xs ai) = safes ai \<union> set xs"
  by (induction xs arbitrary: ai) (auto simp: mark_safe_def)

lemma fold_mark_mine_knowledge:
  "knowledge (fold mark_mine xs ai) = map (fold sentence_mark_mine xs) (knowledge ai)"
  by (induction xs arbitrary: ai) (simp_all add: mark_mine_def)

lemma fold_mark_safe_knowledge:
  "knowledge (fold mark_safe xs ai) = map (fold sentence_mark_safe xs) (knowledge ai)"
  by (induction xs arbitrary: ai) (simp_all add: mark_safe_def)

lemma cells_fold_mark_mine [simp]: "cells (fold sentence_mark_mine xs s) = cells s - set xs"
  by (induction xs arbitrary: s) (auto simp: sentence_mark_mine_def)

lemma cells_fold_mark_safe [simp]: "cells (fold sentence_mark_safe xs s) = cells s - set xs"
  by (induction xs arbitrary: s) (auto simp: sentence_mark_safe_def)

lemma count_fold_mark_safe [simp]: "count (fold sentence_mark_safe xs s) = count s"
  by (induction xs arbitrary: s) (auto simp: sentence_mark_safe_def)

lemma count_fold_mark_mine:
  "count (fold sentence_mark_mine xs s) = count s - int (card (cells s \<inter> set xs))"
proof (induction xs arbitrary: s)
  case Nil
  show ?case by simp
next
  case (Cons x xs)
  show ?case
  proof (cases "x \<in> cells s")
    case True
    have "cells s \<inter> set (x # xs) = insert x ((cells s - {x}) \<inter> set xs)"
      using True by auto
    moreover have "finite ((cells s - {x}) \<inter> set xs)" by simp
    moreover have "x \<notin> (cells s - {x}) \<inter> set xs" by simp
    ultimately have "card (cells s \<inter> set (x # xs)) = Suc (card ((cells s - {x}) \<inter> set xs))"
      by simp
    then show ?thesis
      using True Cons [of "sentence_mark_mine x s"] by (simp add: sentence_mark_mine_def)
  next
    case False
    then have "cells s \<inter> set (x # xs) = cells s \<inter> set xs" by auto
    then show ?thesis
      using False Cons [of "sentence_mark_mine x s"] by (simp add: sentence_mark_mine_def)
  qed
qed

lemma mark_mines_fields [simp]:
  "height (mark_mines ms ai) = height ai"
  "width (mark_mines ms ai) = width ai"
  "moves_made (mark_mines ms ai) = moves_made ai"
  "safes (mark_mines ms ai) = safes ai"
  "mines (mark_mines ms ai) = mines ai \<union> set (sorted_list_of_set ms)"
  by (auto simp: mark_mines_def)

lemma mark_safes_fields [simp]:
  "height (mark_safes ss ai) = height ai"
  "width (mark_safes ss ai) = width ai"
  "moves_made (mark_safes ss ai) = moves_made ai"
  "mines (mark_safes ss ai) = mines ai"
  "safes (mark_safes ss ai) = safes ai \<union> set (sorted_list_of_set ss)"
  by (auto simp: mark_safes_def)

lemma mark_mines_knowledge:
  "knowledge (mark_mines ms ai) =
     map (fold sentence_mark_mine (sorted_list_of_set ms)) (knowledge ai)"
  by (simp add: mark_mines_def fold_mark_mine_knowledge)

lemma mark_safes_knowledge:
  "knowledge (mark_safes ss ai) =
     map (fold sentence_mark_safe (sorted_list_of_set ss)) (knowledge ai)"
  by (simp add: mark_safes_def fold_mark_safe_knowledge)

subsection \<open>The order of marking\<close>

text \<open>
  Python does not fix the order in which \<open>for mine in mines\<close> visits a set. The result
  does not depend on it: marking the cells of any two lists with the same elements gives
  the same state.
\<close>

lemma more_fold_sentence_mark_mine [simp]:
  "sentence.more (fold sentence_mark_mine xs s) = sentence.more s"
  by (induction xs arbitrary: s) (simp_all add: sentence_mark_mine_def)

lemma more_fold_sentence_mark_safe [simp]:
  "sentence.more (fold sentence_mark_safe xs s) = sentence.more s"
  by (induction xs arbitrary: s) (simp_all add: sentence_mark_safe_def)

lemma fold_sentence_mark_mine_order:
  "set xs = set ys \<Longrightarrow> fold sentence_mark_mine xs s = fold sentence_mark_mine ys s"
  by (rule sentence.equality) (simp_all add: count_fold_mark_mine)

lemma fold_sentence_mark_safe_order:
  "set xs = set ys \<Longrightarrow> fold sentence_mark_safe xs s = fold sentence_mark_safe ys s"
  by (rule sentence.equality) simp_all

lemma more_fold_mark_mine [simp]:
  "minesweeper_ai.more (fold mark_mine xs ai) = minesweeper_ai.more ai"
  by (induction xs arbitrary: ai) (simp_all add: mark_mine_def)

lemma more_fold_mark_safe [simp]:
  "minesweeper_ai.more (fold mark_safe xs ai) = minesweeper_ai.more ai"
  by (induction xs arbitrary: ai) (simp_all add: mark_safe_def)

lemma fold_mark_mine_order:
  assumes "set xs = set ys"
  shows "fold mark_mine xs ai = fold mark_mine ys ai"
proof (rule minesweeper_ai.equality)
  show "knowledge (fold mark_mine xs ai) = knowledge (fold mark_mine ys ai)"
    using fold_sentence_mark_mine_order [OF assms] by (simp add: fold_mark_mine_knowledge)
qed (simp_all add: assms)

lemma fold_mark_safe_order:
  assumes "set xs = set ys"
  shows "fold mark_safe xs ai = fold mark_safe ys ai"
proof (rule minesweeper_ai.equality)
  show "knowledge (fold mark_safe xs ai) = knowledge (fold mark_safe ys ai)"
    using fold_sentence_mark_safe_order [OF assms] by (simp add: fold_mark_safe_knowledge)
qed (simp_all add: assms)

lemma mark_mines_any_order:
  assumes "finite ms" and "set xs = ms"
  shows "mark_mines ms ai = fold mark_mine xs ai"
proof (cases "ms = {}")
  case True
  with assms(2) show ?thesis by (simp add: mark_mines_def)
next
  case False
  from assms have "set (sorted_list_of_set ms) = set xs" by simp
  then have "fold mark_mine (sorted_list_of_set ms) ai = fold mark_mine xs ai"
    by (rule fold_mark_mine_order)
  with False show ?thesis by (simp add: mark_mines_def)
qed

lemma mark_safes_any_order:
  assumes "finite ss" and "set xs = ss"
  shows "mark_safes ss ai = fold mark_safe xs ai"
proof (cases "ss = {}")
  case True
  with assms(2) show ?thesis by (simp add: mark_safes_def)
next
  case False
  from assms have "set (sorted_list_of_set ss) = set xs" by simp
  then have "fold mark_safe (sorted_list_of_set ss) ai = fold mark_safe xs ai"
    by (rule fold_mark_safe_order)
  with False show ?thesis by (simp add: mark_safes_def)
qed

subsection \<open>Collecting, removing, inferring\<close>

lemma collect_fold:
  "fold (\<lambda>s acc. (fst acc \<union> known_mines s, snd acc \<union> known_safes s)) kn (a, b) =
     (a \<union> (\<Union>s\<in>set kn. known_mines s), b \<union> (\<Union>s\<in>set kn. known_safes s))"
  by (induction kn arbitrary: a b) auto

lemma fst_collect: "fst (collect kn) = (\<Union>s\<in>set kn. known_mines s)"
  by (simp add: collect_def collect_fold)

lemma snd_collect: "snd (collect kn) = (\<Union>s\<in>set kn. known_safes s)"
  by (simp add: collect_def collect_fold)

lemma known_mines_subset: "known_mines s \<subseteq> cells s"
  by (simp add: known_mines_def)

lemma known_safes_subset: "known_safes s \<subseteq> cells s"
  by (simp add: known_safes_def)

lemma remove_empty_subset: "set (remove_empty i kn) \<subseteq> set kn"
proof (induction i kn rule: remove_empty.induct)
  case (1 i kn)
  show ?case
  proof (cases "i < length kn")
    case False
    then show ?thesis by (simp add: remove_empty.simps [of i kn])
  next
    case True
    show ?thesis
    proof (cases "card (cells (kn ! i)) = 0")
      case True
      with \<open>i < length kn\<close> 1(1) have "set (remove_empty (i + 1) (remove1 (kn ! i) kn)) \<subseteq> set (remove1 (kn ! i) kn)"
        by simp
      also have "\<dots> \<subseteq> set kn" by (rule set_remove1_subset)
      finally show ?thesis
        using True \<open>i < length kn\<close> by (simp add: remove_empty.simps [of i kn])
    next
      case False
      with \<open>i < length kn\<close> 1(2) show ?thesis
        by (simp add: remove_empty.simps [of i kn])
    qed
  qed
qed

lemma remove_empty_keeps:
  "s \<in> set kn \<Longrightarrow> card (cells s) \<noteq> 0 \<Longrightarrow> s \<in> set (remove_empty i kn)"
proof (induction i kn rule: remove_empty.induct)
  case (1 i kn)
  show ?case
  proof (cases "i < length kn")
    case False
    with 1(3) show ?thesis by (simp add: remove_empty.simps [of i kn])
  next
    case True
    show ?thesis
    proof (cases "card (cells (kn ! i)) = 0")
      case True
      with 1(4) have "s \<noteq> kn ! i" by auto
      with 1(3) have "s \<in> set (remove1 (kn ! i) kn)" by simp
      with True \<open>i < length kn\<close> 1(1) 1(4) show ?thesis
        by (simp add: remove_empty.simps [of i kn])
    next
      case False
      with \<open>i < length kn\<close> 1(2) 1(3) 1(4) show ?thesis
        by (simp add: remove_empty.simps [of i kn])
    qed
  qed
qed

lemma set_infer:
  "set (infer kn) =
     {inferred s1 s2 | s1 s2. s1 \<in> set kn \<and> s2 \<in> set kn \<and> cells s1 \<subseteq> cells s2 \<and>
        count s1 \<le> count s2 \<and> s1 \<noteq> s2 \<and> inferred s1 s2 \<notin> set kn}"
  by (auto simp: infer_def split: if_splits)

lemma before_infer_fields [simp]:
  "height (before_infer ai) = height ai"
  "width (before_infer ai) = width ai"
  "moves_made (before_infer ai) = moves_made ai"
  by (simp_all add: before_infer_def Let_def)

lemma pass_fields [simp]:
  "height (fst (pass ai)) = height ai"
  "width (fst (pass ai)) = width ai"
  "moves_made (fst (pass ai)) = moves_made ai"
  "mines (fst (pass ai)) = mines (before_infer ai)"
  "safes (fst (pass ai)) = safes (before_infer ai)"
  "knowledge (fst (pass ai)) = knowledge (before_infer ai) @ infer (knowledge (before_infer ai))"
  by (simp_all add: pass_def Let_def)

subsection \<open>The subset rule\<close>

text \<open>
  C2. In a pass of the loop, let \<open>A\<close> and \<open>B\<close> be two different sentences of the knowledge
  the subset rule scans, with the cells of \<open>A\<close> among those of \<open>B\<close> and the count of \<open>A\<close>
  at most that of \<open>B\<close>. Then the sentence with the cells \<open>B.cells - A.cells\<close> and the
  count \<open>B.count - A.count\<close> is collected as new knowledge unless an equal sentence is
  stored already, it is in the knowledge when the pass ends, and its count is not
  negative. Every sentence the subset rule collects in the pass is new, is built in this
  way from such a pair of scanned sentences and has a count that is not negative.
\<close>

theorem subset_rule_adds_inferred:
  assumes "A \<in> set (knowledge (before_infer ai))"
    and "B \<in> set (knowledge (before_infer ai))"
    and "A \<noteq> B" and "cells A \<subseteq> cells B" and "count A \<le> count B"
  shows "(\<lparr>cells = cells B - cells A, count = count B - count A\<rparr>
            \<notin> set (knowledge (before_infer ai)) \<longrightarrow>
          \<lparr>cells = cells B - cells A, count = count B - count A\<rparr>
            \<in> set (infer (knowledge (before_infer ai)))) \<and>
         \<lparr>cells = cells B - cells A, count = count B - count A\<rparr>
            \<in> set (knowledge (fst (pass ai))) \<and>
         0 \<le> count B - count A \<and>
         (\<forall>t\<in>set (infer (knowledge (before_infer ai))).
            0 \<le> count t \<and> t \<notin> set (knowledge (before_infer ai)) \<and>
            (\<exists>s1\<in>set (knowledge (before_infer ai)). \<exists>s2\<in>set (knowledge (before_infer ai)).
               cells s1 \<subseteq> cells s2 \<and> count s1 \<le> count s2 \<and> s1 \<noteq> s2 \<and>
               t = \<lparr>cells = cells s2 - cells s1, count = count s2 - count s1\<rparr>))"
proof -
  let ?kb = "knowledge (before_infer ai)"
  let ?D = "\<lparr>cells = cells B - cells A, count = count B - count A\<rparr>"
  have D: "inferred A B = ?D" by (simp add: inferred_def)
  have added: "?D \<in> set (infer ?kb)" if "?D \<notin> set ?kb"
    using assms that unfolding set_infer D [symmetric] by blast
  then have stored: "?D \<in> set (knowledge (fst (pass ai)))" by auto
  have emitted: "0 \<le> count t \<and> t \<notin> set ?kb \<and>
      (\<exists>s1\<in>set ?kb. \<exists>s2\<in>set ?kb. cells s1 \<subseteq> cells s2 \<and> count s1 \<le> count s2 \<and> s1 \<noteq> s2 \<and>
         t = \<lparr>cells = cells s2 - cells s1, count = count s2 - count s1\<rparr>)"
    if "t \<in> set (infer ?kb)" for t
  proof -
    from that obtain s1 s2 where t: "t = inferred s1 s2" and s1: "s1 \<in> set ?kb"
      and s2: "s2 \<in> set ?kb" and sub: "cells s1 \<subseteq> cells s2" and le: "count s1 \<le> count s2"
      and ne: "s1 \<noteq> s2" and new: "inferred s1 s2 \<notin> set ?kb"
      unfolding set_infer by blast
    from le t have "0 \<le> count t" by (simp add: inferred_def)
    moreover from new t have "t \<notin> set ?kb" by simp
    moreover from t have "t = \<lparr>cells = cells s2 - cells s1, count = count s2 - count s1\<rparr>"
      by (simp add: inferred_def)
    ultimately show ?thesis using s1 s2 sub le ne by blast
  qed
  from assms(5) have "0 \<le> count B - count A" by simp
  with added stored emitted show ?thesis by blast
qed

theorem subset_rule_adds_inferred_witness:
  "run (init_ai 2 4) [Add_knowledge (0, 3) 1, Add_knowledge (1, 3) 1] =
     Some \<lparr>height = 2, width = 4, moves_made = {(1, 3), (0, 3)}, mines = {},
            safes = {(1, 3), (0, 3)},
            knowledge = [\<lparr>cells = {(1, 2), (0, 2)}, count = 1\<rparr>,
                         \<lparr>cells = {(1, 2), (0, 2)}, count = 1\<rparr>]\<rparr> \<and>
   \<lparr>cells = {(1, 2), (0, 2)}, count = 1\<rparr> \<in> set (knowledge (before_infer (integrate
       \<lparr>height = 2, width = 4, moves_made = {(1, 3), (0, 3)}, mines = {},
        safes = {(1, 3), (0, 3)},
        knowledge = [\<lparr>cells = {(1, 2), (0, 2)}, count = 1\<rparr>,
                     \<lparr>cells = {(1, 2), (0, 2)}, count = 1\<rparr>]\<rparr> (0, 1) 1))) \<and>
   \<lparr>cells = {(1, 2), (1, 1), (1, 0), (0, 2), (0, 0)}, count = 1\<rparr>
     \<in> set (knowledge (before_infer (integrate
       \<lparr>height = 2, width = 4, moves_made = {(1, 3), (0, 3)}, mines = {},
        safes = {(1, 3), (0, 3)},
        knowledge = [\<lparr>cells = {(1, 2), (0, 2)}, count = 1\<rparr>,
                     \<lparr>cells = {(1, 2), (0, 2)}, count = 1\<rparr>]\<rparr> (0, 1) 1))) \<and>
   \<lparr>cells = {(1, 2), (0, 2)}, count = 1\<rparr>
     \<noteq> \<lparr>cells = {(1, 2), (1, 1), (1, 0), (0, 2), (0, 0)}, count = 1\<rparr> \<and>
   cells \<lparr>cells = {(1, 2), (0, 2)}, count = 1\<rparr>
     \<subseteq> cells \<lparr>cells = {(1, 2), (1, 1), (1, 0), (0, 2), (0, 0)}, count = 1\<rparr> \<and>
   count \<lparr>cells = {(1, 2), (0, 2)}, count = 1\<rparr>
     \<le> count \<lparr>cells = {(1, 2), (1, 1), (1, 0), (0, 2), (0, 0)}, count = 1\<rparr> \<and>
   \<lparr>cells = {(1, 1), (1, 0), (0, 0)}, count = 0\<rparr>
     \<notin> set (knowledge (before_infer (integrate
       \<lparr>height = 2, width = 4, moves_made = {(1, 3), (0, 3)}, mines = {},
        safes = {(1, 3), (0, 3)},
        knowledge = [\<lparr>cells = {(1, 2), (0, 2)}, count = 1\<rparr>,
                     \<lparr>cells = {(1, 2), (0, 2)}, count = 1\<rparr>]\<rparr> (0, 1) 1))) \<and>
   \<lparr>cells = {(1, 1), (1, 0), (0, 0)}, count = 0\<rparr>
     \<in> set (infer (knowledge (before_infer (integrate
       \<lparr>height = 2, width = 4, moves_made = {(1, 3), (0, 3)}, mines = {},
        safes = {(1, 3), (0, 3)},
        knowledge = [\<lparr>cells = {(1, 2), (0, 2)}, count = 1\<rparr>,
                     \<lparr>cells = {(1, 2), (0, 2)}, count = 1\<rparr>]\<rparr> (0, 1) 1)))) \<and>
   \<lparr>cells = {(1, 1), (1, 0), (0, 0)}, count = 0\<rparr>
     \<in> set (knowledge (fst (pass (integrate
       \<lparr>height = 2, width = 4, moves_made = {(1, 3), (0, 3)}, mines = {},
        safes = {(1, 3), (0, 3)},
        knowledge = [\<lparr>cells = {(1, 2), (0, 2)}, count = 1\<rparr>,
                     \<lparr>cells = {(1, 2), (0, 2)}, count = 1\<rparr>]\<rparr> (0, 1) 1))))"
proof -
  let ?A = "\<lparr>cells = {(1::int, 2::int), (0, 2)}, count = 1\<rparr>"
  let ?B = "\<lparr>cells = {(1::int, 2::int), (1, 1), (1, 0), (0, 2), (0, 0)}, count = 1\<rparr>"
  let ?D = "\<lparr>cells = {(1::int, 1::int), (1, 0), (0, 0)}, count = 0\<rparr>"
  let ?X = "\<lparr>height = 2, width = 4, moves_made = {(1, 3), (0, 3)}, mines = {},
             safes = {(1, 3), (0, 3)}, knowledge = [?A, ?A]\<rparr>"
  let ?ai = "integrate ?X (0, 1) 1"
  have r: "run (init_ai 2 4) [Add_knowledge (0, 3) 1, Add_knowledge (1, 3) 1] = Some ?X"
    by code_simp
  have h1: "?A \<in> set (knowledge (before_infer ?ai))" by code_simp
  have h2: "?B \<in> set (knowledge (before_infer ?ai))" by code_simp
  have h3: "?A \<noteq> ?B" by code_simp
  have h4: "cells ?A \<subseteq> cells ?B" by code_simp
  have h5: "count ?A \<le> count ?B" by code_simp
  have d: "\<lparr>cells = cells ?B - cells ?A, count = count ?B - count ?A\<rparr> = ?D" by code_simp
  have n: "?D \<notin> set (knowledge (before_infer ?ai))" by code_simp
  from subset_rule_adds_inferred [OF h1 h2 h3 h4 h5, unfolded d] n
  have c: "?D \<in> set (infer (knowledge (before_infer ?ai)))"
    and k: "?D \<in> set (knowledge (fst (pass ?ai)))"
    by blast+
  from r h1 h2 h3 h4 h5 n c k show ?thesis by (intro conjI)
qed

subsection \<open>The new sentence\<close>

lemma fold_neighbor_step:
  "fold (neighbor_step ai) xs (A, k) =
     (A \<union> {x \<in> set xs. in_bounds (height ai) (width ai) x \<and> x \<notin> safes ai \<and> x \<notin> mines ai},
      k - int (length (filter (\<lambda>x. x \<in> mines ai) xs)))"
  by (induction xs arbitrary: A k) (auto simp: neighbor_step_def Let_def)

lemma cells_new_sentence:
  "cells (new_sentence ai c n) =
     {x \<in> set (block c). in_bounds (height ai) (width ai) x \<and> x \<notin> safes ai \<and> x \<notin> mines ai}"
  by (simp add: new_sentence_def fold_neighbor_step)

lemma count_new_sentence:
  "count (new_sentence ai c n) = n - int (length (filter (\<lambda>x. x \<in> mines ai) (block c)))"
  by (simp add: new_sentence_def fold_neighbor_step)

lemma integrate_fields [simp]:
  "height (integrate ai c n) = height ai"
  "width (integrate ai c n) = width ai"
  "moves_made (integrate ai c n) = insert c (moves_made ai)"
  "mines (integrate ai c n) = mines ai"
  "safes (integrate ai c n) = insert c (safes ai)"
  by (simp_all add: integrate_def Let_def mark_safe_def)

lemma knowledge_integrate:
  "knowledge (integrate ai c n) =
     map (sentence_mark_safe c) (knowledge ai) @
     [new_sentence (mark_safe c (ai\<lparr>moves_made := insert c (moves_made ai)\<rparr>)) c n]"
  by (simp add: integrate_def Let_def mark_safe_def)

lemma cells_sentence_mark_mine [simp]: "cells (sentence_mark_mine c s) = cells s - {c}"
  by (auto simp: sentence_mark_mine_def)

lemma cells_sentence_mark_safe [simp]: "cells (sentence_mark_safe c s) = cells s - {c}"
  by (auto simp: sentence_mark_safe_def)

lemma cells_inferred [simp]: "cells (inferred s1 s2) = cells s2 - cells s1"
  by (simp add: inferred_def)

lemma count_inferred [simp]: "count (inferred s1 s2) = count s2 - count s1"
  by (simp add: inferred_def)

subsection \<open>Classified cells leave the sentences\<close>

lemma separated_init: "separated (init_ai h w)"
  by (simp add: separated_def init_ai_def)

lemma separated_mark_mine: "separated ai \<Longrightarrow> separated (mark_mine c ai)"
  by (auto simp: separated_def mark_mine_def)

lemma separated_mark_safe: "separated ai \<Longrightarrow> separated (mark_safe c ai)"
  by (auto simp: separated_def mark_safe_def)

lemma separated_fold_mark_mine: "separated ai \<Longrightarrow> separated (fold mark_mine xs ai)"
  by (induction xs arbitrary: ai) (simp_all add: separated_mark_mine)

lemma separated_fold_mark_safe: "separated ai \<Longrightarrow> separated (fold mark_safe xs ai)"
  by (induction xs arbitrary: ai) (simp_all add: separated_mark_safe)

lemma separated_integrate:
  assumes "separated ai"
  shows "separated (integrate ai c n)"
proof -
  have "cells s \<inter> (mines ai \<union> insert c (safes ai)) = {}"
    if "s \<in> set (knowledge (integrate ai c n))" for s
  proof (cases "s \<in> set (map (sentence_mark_safe c) (knowledge ai))")
    case True
    then obtain s0 where "s0 \<in> set (knowledge ai)" and "s = sentence_mark_safe c s0" by auto
    with assms show ?thesis by (auto simp: separated_def)
  next
    case False
    with that have "s = new_sentence (mark_safe c (ai\<lparr>moves_made := insert c (moves_made ai)\<rparr>)) c n"
      by (simp add: knowledge_integrate)
    then show ?thesis by (auto simp: cells_new_sentence mark_safe_def)
  qed
  then show ?thesis by (simp add: separated_def)
qed

lemma separated_before_infer:
  assumes "separated ai"
  shows "separated (before_infer ai)"
proof -
  let ?ai2 = "mark_safes (snd (collect (knowledge ai))) (mark_mines (fst (collect (knowledge ai))) ai)"
  have "separated ?ai2"
    using assms by (simp add: mark_mines_def mark_safes_def separated_fold_mark_mine
        separated_fold_mark_safe)
  moreover have "set (remove_empty 0 (knowledge ?ai2)) \<subseteq> set (knowledge ?ai2)"
    by (rule remove_empty_subset)
  ultimately show ?thesis
    unfolding before_infer_def Let_def separated_def by auto
qed

lemma separated_pass:
  assumes "separated ai"
  shows "separated (fst (pass ai))"
proof -
  have b: "separated (before_infer ai)" using assms by (rule separated_before_infer)
  have "cells s \<inter> (mines (before_infer ai) \<union> safes (before_infer ai)) = {}"
    if "s \<in> set (infer (knowledge (before_infer ai)))" for s
  proof -
    from that obtain s1 s2 where "s = inferred s1 s2" and "s2 \<in> set (knowledge (before_infer ai))"
      unfolding set_infer by blast
    with b show ?thesis by (auto simp: separated_def)
  qed
  with b show ?thesis by (auto simp: separated_def)
qed

lemma separated_add_knowledge:
  assumes "separated ai" and "add_knowledge ai c n = Some ai'"
  shows "separated ai'"
proof -
  from assms(2) have "fixpoint (integrate ai c n) = Some ai'" by (simp add: add_knowledge_def)
  then show ?thesis
    by (rule fixpoint_invariant) (simp_all add: separated_integrate assms(1) separated_pass)
qed

lemma separated_exec: "separated ai \<Longrightarrow> exec ai cl = Some ai' \<Longrightarrow> separated ai'"
  by (cases cl) (auto simp: separated_add_knowledge separated_mark_mine separated_mark_safe)

lemma separated_run: "separated ai \<Longrightarrow> run ai cs = Some ai' \<Longrightarrow> separated ai'"
proof (induction cs arbitrary: ai)
  case Nil
  then show ?case by simp
next
  case (Cons cl cs)
  from Cons.prems(2) obtain a where a: "exec ai cl = Some a" and r: "run a cs = Some ai'"
    by (auto split: option.splits)
  from Cons.prems(1) a have "separated a" by (rule separated_exec)
  then show ?case using r by (rule Cons.IH)
qed

text \<open>
  C4. After any sequence of \<open>add_knowledge\<close>, \<open>mark_mine\<close> and \<open>mark_safe\<close> calls on a
  new \<open>MinesweeperAI\<close>, each of which returns, no sentence of the knowledge contains a
  cell of \<open>mines\<close> or of \<open>safes\<close>.
\<close>

theorem classified_cells_not_in_sentences:
  assumes "run (init_ai h w) cs = Some ai"
  shows "\<forall>s\<in>set (knowledge ai). cells s \<inter> (mines ai \<union> safes ai) = {}"
  using separated_run [OF separated_init assms] by (simp add: separated_def)

theorem classified_cells_not_in_sentences_witness:
  "run (init_ai 3 3) [Add_knowledge (1, 1) 1, Add_knowledge (0, 2) 0, Mark_safe (2, 2)] =
     Some \<lparr>height = 3, width = 3, moves_made = {(0, 2), (1, 1)}, mines = {},
            safes = {(2, 2), (1, 2), (0, 1), (0, 2), (1, 1)},
            knowledge = [\<lparr>cells = {(2, 1), (2, 0), (1, 0), (0, 0)}, count = 1\<rparr>]\<rparr> \<and>
   cells \<lparr>cells = {(2, 1), (2, 0), (1, 0), (0, 0)}, count = 1\<rparr>
     \<inter> ({} \<union> {(2, 2), (1, 2), (0, 1), (0, 2), (1, 1)}) = {}"
proof -
  have r: "run (init_ai 3 3) [Add_knowledge (1, 1) 1, Add_knowledge (0, 2) 0, Mark_safe (2, 2)] =
     Some \<lparr>height = 3, width = 3, moves_made = {(0, 2), (1, 1)}, mines = {},
            safes = {(2, 2), (1, 2), (0, 1), (0, 2), (1, 1)},
            knowledge = [\<lparr>cells = {(2, 1), (2, 0), (1, 0), (0, 0)}, count = 1\<rparr>]\<rparr>"
    by code_simp
  from classified_cells_not_in_sentences [OF r] r show ?thesis by simp
qed

subsection \<open>Cells stay on the board\<close>

lemma bounded_init: "bounded h w (init_ai h w)"
  by (simp add: bounded_def init_ai_def)

lemma bounded_mark_mine: "bounded h w ai \<Longrightarrow> in_bounds h w c \<Longrightarrow> bounded h w (mark_mine c ai)"
  by (auto simp: bounded_def mark_mine_def)

lemma bounded_mark_safe: "bounded h w ai \<Longrightarrow> in_bounds h w c \<Longrightarrow> bounded h w (mark_safe c ai)"
  by (auto simp: bounded_def mark_safe_def)

lemma bounded_fold_mark_mine:
  "bounded h w ai \<Longrightarrow> \<forall>x\<in>set xs. in_bounds h w x \<Longrightarrow> bounded h w (fold mark_mine xs ai)"
  by (induction xs arbitrary: ai) (simp_all add: bounded_mark_mine)

lemma bounded_fold_mark_safe:
  "bounded h w ai \<Longrightarrow> \<forall>x\<in>set xs. in_bounds h w x \<Longrightarrow> bounded h w (fold mark_safe xs ai)"
  by (induction xs arbitrary: ai) (simp_all add: bounded_mark_safe)

lemma bounded_integrate:
  assumes "bounded h w ai" and "in_bounds h w c"
  shows "bounded h w (integrate ai c n)"
proof -
  have "in_bounds h w x" if "s \<in> set (knowledge (integrate ai c n))" and "x \<in> cells s" for s x
  proof (cases "s \<in> set (map (sentence_mark_safe c) (knowledge ai))")
    case True
    then obtain s0 where "s0 \<in> set (knowledge ai)" and "s = sentence_mark_safe c s0" by auto
    with assms(1) that(2) show ?thesis by (auto simp: bounded_def)
  next
    case False
    with that(1) have "s = new_sentence (mark_safe c (ai\<lparr>moves_made := insert c (moves_made ai)\<rparr>)) c n"
      by (simp add: knowledge_integrate)
    with that(2) assms(1) show ?thesis
      by (auto simp: cells_new_sentence mark_safe_def bounded_def)
  qed
  with assms show ?thesis by (auto simp: bounded_def)
qed

lemma collect_in_cells:
  "x \<in> fst (collect kn) \<union> snd (collect kn) \<Longrightarrow> \<exists>s\<in>set kn. x \<in> cells s"
  using known_mines_subset known_safes_subset by (fastforce simp: fst_collect snd_collect)

lemma bounded_before_infer:
  assumes "bounded h w ai"
  shows "bounded h w (before_infer ai)"
proof -
  let ?ms = "fst (collect (knowledge ai))" and ?ss = "snd (collect (knowledge ai))"
  let ?ai2 = "mark_safes ?ss (mark_mines ?ms ai)"
  have c: "in_bounds h w x" if "x \<in> ?ms \<union> ?ss" for x
    using collect_in_cells [OF that] assms by (auto simp: bounded_def)
  have "\<forall>x\<in>set (sorted_list_of_set ?ms). in_bounds h w x"
    using c set_sorted_list_subset [of ?ms] by auto
  then have 1: "bounded h w (mark_mines ?ms ai)"
    using assms by (simp add: mark_mines_def bounded_fold_mark_mine)
  have "\<forall>x\<in>set (sorted_list_of_set ?ss). in_bounds h w x"
    using c set_sorted_list_subset [of ?ss] by auto
  with 1 have "bounded h w ?ai2"
    by (simp add: mark_safes_def bounded_fold_mark_safe)
  moreover have "set (remove_empty 0 (knowledge ?ai2)) \<subseteq> set (knowledge ?ai2)"
    by (rule remove_empty_subset)
  ultimately show ?thesis
    unfolding before_infer_def Let_def bounded_def by auto
qed

lemma bounded_pass:
  assumes "bounded h w ai"
  shows "bounded h w (fst (pass ai))"
proof -
  have b: "bounded h w (before_infer ai)" using assms by (rule bounded_before_infer)
  have "in_bounds h w x"
    if "s \<in> set (infer (knowledge (before_infer ai)))" and "x \<in> cells s" for s x
  proof -
    from that(1) obtain s1 s2 where "s = inferred s1 s2" and "s2 \<in> set (knowledge (before_infer ai))"
      unfolding set_infer by blast
    with b that(2) show ?thesis by (auto simp: bounded_def)
  qed
  with b show ?thesis by (auto simp: bounded_def)
qed

lemma bounded_add_knowledge:
  assumes "bounded h w ai" and "in_bounds h w c" and "add_knowledge ai c n = Some ai'"
  shows "bounded h w ai'"
proof -
  from assms(3) have "fixpoint (integrate ai c n) = Some ai'" by (simp add: add_knowledge_def)
  then show ?thesis
    by (rule fixpoint_invariant) (simp_all add: bounded_integrate assms(1,2) bounded_pass)
qed

lemma bounded_exec:
  "bounded h w ai \<Longrightarrow> in_bounds h w (call_cell cl) \<Longrightarrow> exec ai cl = Some ai' \<Longrightarrow> bounded h w ai'"
  by (cases cl) (auto simp: bounded_add_knowledge bounded_mark_mine bounded_mark_safe)

lemma bounded_run:
  "bounded h w ai \<Longrightarrow> \<forall>cl\<in>set cs. in_bounds h w (call_cell cl) \<Longrightarrow> run ai cs = Some ai' \<Longrightarrow>
     bounded h w ai'"
proof (induction cs arbitrary: ai)
  case Nil
  then show ?case by simp
next
  case (Cons cl cs)
  from Cons.prems(3) obtain a where a: "exec ai cl = Some a" and r: "run a cs = Some ai'"
    by (auto split: option.splits)
  from Cons.prems(2) have "in_bounds h w (call_cell cl)" by simp
  with Cons.prems(1) have "bounded h w a" using a by (rule bounded_exec)
  then show ?case using Cons.prems(2) r by (simp add: Cons.IH)
qed

text \<open>
  C10. If every cell passed to \<open>add_knowledge\<close> (and to \<open>mark_mine\<close> and \<open>mark_safe\<close>, if
  they are called) is on the board, then after the calls every cell of every stored
  sentence, of \<open>mines\<close> and of \<open>safes\<close> is on the board.
\<close>

theorem cells_stay_in_bounds:
  assumes "\<forall>cl\<in>set cs. in_bounds h w (call_cell cl)"
    and "run (init_ai h w) cs = Some ai"
  shows "(\<forall>s\<in>set (knowledge ai). \<forall>x\<in>cells s. in_bounds h w x) \<and>
         (\<forall>x\<in>mines ai. in_bounds h w x) \<and> (\<forall>x\<in>safes ai. in_bounds h w x)"
  using bounded_run [OF bounded_init assms] by (simp add: bounded_def)

theorem cells_stay_in_bounds_witness:
  "in_bounds 1 5 (call_cell (Add_knowledge (0, 0) 1)) \<and>
   in_bounds 1 5 (call_cell (Add_knowledge (0, 3) 1)) \<and>
   run (init_ai 1 5) [Add_knowledge (0, 0) 1, Add_knowledge (0, 3) 1] =
     Some \<lparr>height = 1, width = 5, moves_made = {(0, 3), (0, 0)}, mines = {(0, 1)},
            safes = {(0, 3), (0, 0)},
            knowledge = [\<lparr>cells = {(0, 4), (0, 2)}, count = 1\<rparr>]\<rparr> \<and>
   in_bounds 1 5 (0, 4) \<and> in_bounds 1 5 (0, 2) \<and> in_bounds 1 5 (0, 1) \<and>
   in_bounds 1 5 (0, 3) \<and> in_bounds 1 5 (0, 0)"
proof -
  have h: "\<forall>cl\<in>set [Add_knowledge (0, 0) 1, Add_knowledge (0, 3) 1]. in_bounds 1 5 (call_cell cl)"
    by code_simp
  have r: "run (init_ai 1 5) [Add_knowledge (0, 0) 1, Add_knowledge (0, 3) 1] =
     Some \<lparr>height = 1, width = 5, moves_made = {(0, 3), (0, 0)}, mines = {(0, 1)},
            safes = {(0, 3), (0, 0)},
            knowledge = [\<lparr>cells = {(0, 4), (0, 2)}, count = 1\<rparr>]\<rparr>"
    by code_simp
  from cells_stay_in_bounds [OF h r] h r show ?thesis by simp
qed

subsection \<open>The board\<close>

lemma in_board_cells: "x \<in> board_cells h w \<longleftrightarrow> in_bounds h w x"
  by (cases x) (auto simp: board_cells_def in_bounds_def image_iff)

lemma finite_board_cells [simp]: "finite (board_cells h w)"
  by (simp add: board_cells_def)

subsection \<open>What the board reports\<close>

lemma block_cases:
  "block (i, j) = [(i - 1, j - 1), (i - 1, j), (i - 1, j + 1), (i, j - 1), (i, j), (i, j + 1),
                   (i + 1, j - 1), (i + 1, j), (i + 1, j + 1)]"
  by (simp add: block_def upto_rec1)

lemma distinct_block: "distinct (block c)"
  by (cases c) (simp add: block_cases)

lemma fold_count:
  "fold (\<lambda>x n. if x = c then n else if P x then n + 1 else n) xs k =
     k + int (length (filter (\<lambda>x. x \<noteq> c \<and> P x) xs))"
  by (induction xs arbitrary: k) auto

lemma nearby_mines_filter:
  "nearby_mines h w M c =
     int (length (filter (\<lambda>x. x \<noteq> c \<and> in_bounds h w x \<and> x \<in> M) (block c)))"
  by (simp add: nearby_mines_def fold_count)

lemma length_filter_card:
  "distinct xs \<Longrightarrow> length (filter P xs) = card {x \<in> set xs. P x}"
  using distinct_card [of "filter P xs"] by simp

subsection \<open>Sound knowledge\<close>

lemma sound_init: "sound h w M (init_ai h w)"
  by (simp add: sound_def init_ai_def)

lemma sound_sentence_mark_mine:
  assumes "finite (cells s)" and "count s = int (card (cells s \<inter> M))" and "c \<in> M"
  shows "count (sentence_mark_mine c s) = int (card (cells (sentence_mark_mine c s) \<inter> M))"
proof (cases "c \<in> cells s")
  case True
  then have "cells s \<inter> M = insert c ((cells s - {c}) \<inter> M)" using assms(3) by auto
  moreover have "finite ((cells s - {c}) \<inter> M)" using assms(1) by simp
  ultimately have "card (cells s \<inter> M) = Suc (card ((cells s - {c}) \<inter> M))"
    by (metis Diff_iff Int_iff card_insert_disjoint insertI1)
  with True assms(2) show ?thesis by (simp add: sentence_mark_mine_def)
next
  case False
  with assms(2) show ?thesis by (simp add: sentence_mark_mine_def)
qed

lemma sound_sentence_mark_safe:
  assumes "count s = int (card (cells s \<inter> M))" and "c \<notin> M"
  shows "count (sentence_mark_safe c s) = int (card (cells (sentence_mark_safe c s) \<inter> M))"
proof -
  have "(cells s - {c}) \<inter> M = cells s \<inter> M" using assms(2) by auto
  with assms(1) show ?thesis by (simp add: sentence_mark_safe_def)
qed

lemma sound_mark_mine:
  assumes "sound h w M ai" and "c \<in> M"
  shows "sound h w M (mark_mine c ai)"
proof -
  have "finite (cells (sentence_mark_mine c s)) \<and>
        cells (sentence_mark_mine c s) \<subseteq> board_cells h w \<and>
        count (sentence_mark_mine c s) = int (card (cells (sentence_mark_mine c s) \<inter> M))"
    if "s \<in> set (knowledge ai)" for s
  proof -
    from assms(1) that have f: "finite (cells s)" and b: "cells s \<subseteq> board_cells h w"
      and k: "count s = int (card (cells s \<inter> M))"
      by (simp_all add: sound_def)
    from f k assms(2) have "count (sentence_mark_mine c s) = int (card (cells (sentence_mark_mine c s) \<inter> M))"
      by (rule sound_sentence_mark_mine)
    with f b show ?thesis by auto
  qed
  with assms show ?thesis by (simp add: sound_def mark_mine_def)
qed

lemma sound_mark_safe:
  assumes "sound h w M ai" and "c \<notin> M"
  shows "sound h w M (mark_safe c ai)"
proof -
  have "finite (cells (sentence_mark_safe c s)) \<and>
        cells (sentence_mark_safe c s) \<subseteq> board_cells h w \<and>
        count (sentence_mark_safe c s) = int (card (cells (sentence_mark_safe c s) \<inter> M))"
    if "s \<in> set (knowledge ai)" for s
  proof -
    from assms(1) that have f: "finite (cells s)" and b: "cells s \<subseteq> board_cells h w"
      and k: "count s = int (card (cells s \<inter> M))"
      by (simp_all add: sound_def)
    from k assms(2) have "count (sentence_mark_safe c s) = int (card (cells (sentence_mark_safe c s) \<inter> M))"
      by (rule sound_sentence_mark_safe)
    with f b show ?thesis by auto
  qed
  with assms show ?thesis by (simp add: sound_def mark_safe_def)
qed

lemma sound_fold_mark_mine:
  "sound h w M ai \<Longrightarrow> set xs \<subseteq> M \<Longrightarrow> sound h w M (fold mark_mine xs ai)"
  by (induction xs arbitrary: ai) (simp_all add: sound_mark_mine)

lemma sound_fold_mark_safe:
  "sound h w M ai \<Longrightarrow> set xs \<inter> M = {} \<Longrightarrow> sound h w M (fold mark_safe xs ai)"
  by (induction xs arbitrary: ai) (simp_all add: sound_mark_safe)

lemma known_mines_sound:
  assumes "finite (cells s)" and "count s = int (card (cells s \<inter> M))"
  shows "known_mines s \<subseteq> M"
proof (cases "int (card (cells s)) = count s \<and> count s \<noteq> 0")
  case True
  with assms(2) have "card (cells s \<inter> M) = card (cells s)" by simp
  with assms(1) have "cells s \<inter> M = cells s"
    by (intro card_subset_eq) auto
  with True show ?thesis by (auto simp: known_mines_def)
next
  case False
  then show ?thesis by (auto simp: known_mines_def)
qed

lemma known_safes_sound:
  assumes "finite (cells s)" and "count s = int (card (cells s \<inter> M))"
  shows "known_safes s \<inter> M = {}"
proof (cases "count s = 0")
  case True
  with assms(2) have "card (cells s \<inter> M) = 0" by simp
  with assms(1) have "cells s \<inter> M = {}" by simp
  with True show ?thesis by (simp add: known_safes_def)
next
  case False
  then show ?thesis by (simp add: known_safes_def)
qed

lemma sound_inferred:
  assumes "finite (cells s2)" and "cells s1 \<subseteq> cells s2"
    and "count s1 = int (card (cells s1 \<inter> M))" and "count s2 = int (card (cells s2 \<inter> M))"
  shows "count (inferred s1 s2) = int (card (cells (inferred s1 s2) \<inter> M))"
proof -
  have sub: "cells s1 \<inter> M \<subseteq> cells s2 \<inter> M" using assms(2) by auto
  have fin: "finite (cells s2 \<inter> M)" using assms(1) by simp
  have fin1: "finite (cells s1 \<inter> M)" using sub fin by (rule finite_subset)
  have "(cells s2 - cells s1) \<inter> M = (cells s2 \<inter> M) - (cells s1 \<inter> M)" by auto
  moreover have "card ((cells s2 \<inter> M) - (cells s1 \<inter> M)) =
      card (cells s2 \<inter> M) - card (cells s1 \<inter> M)"
    using fin1 sub by (rule card_Diff_subset)
  ultimately have "card ((cells s2 - cells s1) \<inter> M) =
      card (cells s2 \<inter> M) - card (cells s1 \<inter> M)"
    by simp
  moreover have "card (cells s1 \<inter> M) \<le> card (cells s2 \<inter> M)"
    using sub fin by (rule card_mono [rotated])
  ultimately show ?thesis using assms(3,4) by simp
qed

lemma sound_new_sentence:
  assumes "mines ai \<subseteq> M" and "safes ai \<inter> M = {}" and "M \<subseteq> board_cells (height ai) (width ai)"
    and "c \<notin> M" and "c \<in> safes ai"
  shows "count (new_sentence ai c (nearby_mines (height ai) (width ai) M c)) =
         int (card (cells (new_sentence ai c (nearby_mines (height ai) (width ai) M c)) \<inter> M))"
proof -
  let ?h = "height ai" and ?w = "width ai"
  let ?P = "{x \<in> set (block c). x \<noteq> c \<and> in_bounds ?h ?w x \<and> x \<in> M}"
  let ?Q = "{x \<in> set (block c). x \<in> mines ai}"
  have inb: "in_bounds ?h ?w x" if "x \<in> M" for x
    using assms(3) that by (auto simp: in_board_cells)
  have sub: "?Q \<subseteq> ?P" using assms(1,4) inb by auto
  have finP: "finite ?P" by simp
  have finQ: "finite ?Q" by simp
  have "cells (new_sentence ai c (nearby_mines ?h ?w M c)) \<inter> M = ?P - ?Q"
    using assms(2,4) by (auto simp: cells_new_sentence)
  moreover have "card (?P - ?Q) = card ?P - card ?Q"
    using finQ sub by (rule card_Diff_subset)
  moreover have "card ?Q \<le> card ?P"
    using finP sub by (rule card_mono)
  moreover have "nearby_mines ?h ?w M c = int (card ?P)"
    by (simp add: nearby_mines_filter length_filter_card distinct_block)
  moreover have "length (filter (\<lambda>x. x \<in> mines ai) (block c)) = card ?Q"
    by (simp add: length_filter_card distinct_block)
  ultimately show ?thesis
    by (simp add: count_new_sentence)
qed

lemma sound_integrate:
  assumes "sound h w M ai" and "M \<subseteq> board_cells h w" and "c \<notin> M"
  shows "sound h w M (integrate ai c (nearby_mines h w M c))"
proof -
  let ?ai2 = "mark_safe c (ai\<lparr>moves_made := insert c (moves_made ai)\<rparr>)"
  let ?n = "nearby_mines h w M c"
  have hw: "height ai = h" "width ai = w" using assms(1) by (simp_all add: sound_def)
  have "sound h w M (ai\<lparr>moves_made := insert c (moves_made ai)\<rparr>)"
    using assms(1) by (simp add: sound_def)
  then have s2: "sound h w M ?ai2" using assms(3) by (rule sound_mark_safe)
  have "count (new_sentence ?ai2 c (nearby_mines (height ?ai2) (width ?ai2) M c)) =
        int (card (cells (new_sentence ?ai2 c (nearby_mines (height ?ai2) (width ?ai2) M c)) \<inter> M))"
  proof (rule sound_new_sentence)
    show "mines ?ai2 \<subseteq> M" using s2 by (simp add: sound_def)
    show "safes ?ai2 \<inter> M = {}" using s2 by (simp add: sound_def)
    show "M \<subseteq> board_cells (height ?ai2) (width ?ai2)"
      using assms(2) hw by (simp add: mark_safe_def)
    show "c \<notin> M" by (rule assms(3))
    show "c \<in> safes ?ai2" by (simp add: mark_safe_def)
  qed
  then have cnt: "count (new_sentence ?ai2 c ?n) = int (card (cells (new_sentence ?ai2 c ?n) \<inter> M))"
    using hw by (simp add: mark_safe_def)
  have fin: "finite (cells (new_sentence ?ai2 c ?n))"
    by (simp add: cells_new_sentence)
  have bnd: "cells (new_sentence ?ai2 c ?n) \<subseteq> board_cells h w"
    using hw by (auto simp: cells_new_sentence mark_safe_def in_board_cells)
  have k: "knowledge (integrate ai c ?n) = knowledge ?ai2 @ [new_sentence ?ai2 c ?n]"
    by (simp add: integrate_def Let_def)
  have f: "height (integrate ai c ?n) = h" "width (integrate ai c ?n) = w"
      "mines (integrate ai c ?n) = mines ?ai2" "safes (integrate ai c ?n) = safes ?ai2"
    using hw by (simp_all add: mark_safe_def)
  show ?thesis
    using s2 cnt fin bnd unfolding sound_def k f by auto
qed

lemma sound_finite_collect:
  assumes "sound h w M ai"
  shows "finite (fst (collect (knowledge ai)))" and "finite (snd (collect (knowledge ai)))"
    and "fst (collect (knowledge ai)) \<subseteq> M" and "snd (collect (knowledge ai)) \<inter> M = {}"
proof -
  have s: "finite (cells s) \<and> count s = int (card (cells s \<inter> M))" if "s \<in> set (knowledge ai)" for s
    using assms that by (simp add: sound_def)
  have "finite (known_mines s)" if "s \<in> set (knowledge ai)" for s
    using known_mines_subset [of s] by (rule finite_subset) (simp add: s [OF that])
  then show "finite (fst (collect (knowledge ai)))" by (simp add: fst_collect)
  have "finite (known_safes s)" if "s \<in> set (knowledge ai)" for s
    using known_safes_subset [of s] by (rule finite_subset) (simp add: s [OF that])
  then show "finite (snd (collect (knowledge ai)))" by (simp add: snd_collect)
  show "fst (collect (knowledge ai)) \<subseteq> M"
    using s known_mines_sound by (fastforce simp: fst_collect)
  show "snd (collect (knowledge ai)) \<inter> M = {}"
    using s known_safes_sound by (fastforce simp: snd_collect)
qed

lemma before_infer_sets [simp]:
  "mines (before_infer ai) = mines ai \<union> set (sorted_list_of_set (fst (collect (knowledge ai))))"
  "safes (before_infer ai) = safes ai \<union> set (sorted_list_of_set (snd (collect (knowledge ai))))"
  by (simp_all add: before_infer_def Let_def)

lemma sound_before_infer:
  assumes "sound h w M ai"
  shows "sound h w M (before_infer ai)"
proof -
  let ?ms = "fst (collect (knowledge ai))" and ?ss = "snd (collect (knowledge ai))"
  let ?ai2 = "mark_safes ?ss (mark_mines ?ms ai)"
  have "set (sorted_list_of_set ?ms) \<subseteq> M"
    using sound_finite_collect(3) [OF assms] set_sorted_list_subset [of ?ms] by blast
  with assms have 1: "sound h w M (mark_mines ?ms ai)"
    by (simp add: mark_mines_def sound_fold_mark_mine)
  have "set (sorted_list_of_set ?ss) \<inter> M = {}"
    using sound_finite_collect(4) [OF assms] set_sorted_list_subset [of ?ss] by blast
  with 1 have "sound h w M ?ai2"
    by (simp add: mark_safes_def sound_fold_mark_safe)
  moreover have "set (remove_empty 0 (knowledge ?ai2)) \<subseteq> set (knowledge ?ai2)"
    by (rule remove_empty_subset)
  ultimately show ?thesis
    unfolding before_infer_def Let_def sound_def by auto
qed

lemma sound_pass:
  assumes "sound h w M ai"
  shows "sound h w M (fst (pass ai))"
proof -
  have b: "sound h w M (before_infer ai)" using assms by (rule sound_before_infer)
  have "finite (cells s) \<and> cells s \<subseteq> board_cells h w \<and> count s = int (card (cells s \<inter> M))"
    if "s \<in> set (infer (knowledge (before_infer ai)))" for s
  proof -
    from that obtain s1 s2 where s: "s = inferred s1 s2"
      and s1: "s1 \<in> set (knowledge (before_infer ai))"
      and s2: "s2 \<in> set (knowledge (before_infer ai))" and sub: "cells s1 \<subseteq> cells s2"
      unfolding set_infer by blast
    from b s1 have c1: "count s1 = int (card (cells s1 \<inter> M))" by (simp add: sound_def)
    from b s2 have f2: "finite (cells s2)" and b2: "cells s2 \<subseteq> board_cells h w"
      and c2: "count s2 = int (card (cells s2 \<inter> M))" by (simp_all add: sound_def)
    from f2 sub c1 c2 have "count (inferred s1 s2) = int (card (cells (inferred s1 s2) \<inter> M))"
      by (rule sound_inferred)
    with f2 b2 s show ?thesis by auto
  qed
  with b show ?thesis by (auto simp: sound_def)
qed

subsection \<open>The loop ends\<close>

lemma finite_candidates [simp]: "finite (candidates h w M)"
  unfolding candidates_def by (intro finite_imageI finite_Diff) simp

lemma candidates_nonempty: "t \<in> candidates h w M \<Longrightarrow> card (cells t) \<noteq> 0"
proof -
  assume "t \<in> candidates h w M"
  then obtain C where t: "t = \<lparr>cells = C, count = int (card (C \<inter> M))\<rparr>"
    and C: "C \<in> Pow (board_cells h w) - {{}}"
    unfolding candidates_def by (rule imageE)
  from C have sub: "C \<subseteq> board_cells h w" and ne: "C \<noteq> {}" by simp_all
  from sub have "finite C" by (rule finite_subset) simp
  with ne t show ?thesis by simp
qed

lemma sentence_eqI: "cells s = cells t \<Longrightarrow> count s = count t \<Longrightarrow> s = t"
  for s t :: sentence
  by (cases s; cases t) simp

lemma card_less_witness:
  assumes "finite B" and "A \<subseteq> B" and "x \<in> B" and "x \<notin> A"
  shows "card A < card B"
proof -
  from assms(2,3,4) have "A \<subset> B" by blast
  with assms(1) show ?thesis by (rule psubset_card_mono)
qed

lemma pass_decreases:
  assumes "sound h w M ai" and "separated ai" and "snd (pass ai)"
  shows "(progress h w M (fst (pass ai)), progress h w M ai) \<in> less_than <*lex*> less_than"
proof -
  let ?kn = "knowledge ai"
  let ?ms = "fst (collect ?kn)" and ?ss = "snd (collect ?kn)"
  let ?U = "board_cells h w"
  show ?thesis
  proof (cases "?ms \<union> ?ss = {}")
    case False
    then obtain x where x: "x \<in> ?ms \<union> ?ss" by blast
    from collect_in_cells [OF x] obtain s where s: "s \<in> set ?kn" and xs: "x \<in> cells s" by blast
    from assms(1) s xs have xU: "x \<in> ?U" by (auto simp: sound_def)
    from assms(2) s xs have xn: "x \<notin> mines ai \<union> safes ai" by (auto simp: separated_def)
    have m: "mines (fst (pass ai)) = mines ai \<union> ?ms"
      using sound_finite_collect(1) [OF assms(1)] by simp
    have sf: "safes (fst (pass ai)) = safes ai \<union> ?ss"
      using sound_finite_collect(2) [OF assms(1)] by simp
    have "card (?U - ((mines ai \<union> ?ms) \<union> (safes ai \<union> ?ss))) <
          card (?U - (mines ai \<union> safes ai))"
    proof (rule card_less_witness)
      show "finite (?U - (mines ai \<union> safes ai))" by simp
      show "?U - ((mines ai \<union> ?ms) \<union> (safes ai \<union> ?ss)) \<subseteq> ?U - (mines ai \<union> safes ai)"
        by blast
      show "x \<in> ?U - (mines ai \<union> safes ai)" using xU xn by simp
      show "x \<notin> ?U - ((mines ai \<union> ?ms) \<union> (safes ai \<union> ?ss))" using x by blast
    qed
    then have "fst (progress h w M (fst (pass ai))) < fst (progress h w M ai)"
      unfolding progress_def fst_conv m sf .
    then show ?thesis
      by (cases "progress h w M (fst (pass ai))"; cases "progress h w M ai") simp
  next
    case True
    then have e: "?ms = {}" "?ss = {}" by auto
    then have bi: "before_infer ai = ai\<lparr>knowledge := remove_empty 0 ?kn\<rparr>"
      by (simp add: before_infer_def Let_def mark_mines_def mark_safes_def)
    let ?kb = "remove_empty 0 ?kn"
    from assms(3) e bi have "infer ?kb \<noteq> []" by (simp add: pass_def Let_def)
    then obtain t where t: "t \<in> set (infer ?kb)" by (cases "infer ?kb") auto
    then obtain s1 s2 where t_def: "t = inferred s1 s2" and s1: "s1 \<in> set ?kb"
      and s2: "s2 \<in> set ?kb" and sub: "cells s1 \<subseteq> cells s2" and ne: "s1 \<noteq> s2"
      and new: "t \<notin> set ?kb"
      unfolding set_infer by blast
    have kb_sub: "set ?kb \<subseteq> set ?kn" by (rule remove_empty_subset)
    from assms(1) s1 kb_sub have c1: "count s1 = int (card (cells s1 \<inter> M))"
      by (auto simp: sound_def)
    from assms(1) s2 kb_sub have f2: "finite (cells s2)" and b2: "cells s2 \<subseteq> ?U"
      and c2: "count s2 = int (card (cells s2 \<inter> M))"
      by (auto simp: sound_def)
    have "cells s1 \<noteq> cells s2"
    proof
      assume "cells s1 = cells s2"
      with c1 c2 have "s1 = s2" by (intro sentence_eqI) simp_all
      with ne show False by simp
    qed
    with sub have nonempty: "cells t \<noteq> {}" by (auto simp: t_def)
    have "count t = int (card (cells t \<inter> M))"
      unfolding t_def using f2 sub c1 c2 by (rule sound_inferred)
    then have "t = \<lparr>cells = cells t, count = int (card (cells t \<inter> M))\<rparr>" by simp
    moreover have "cells t \<in> Pow ?U - {{}}" using b2 nonempty by (auto simp: t_def)
    ultimately have tc: "t \<in> candidates h w M"
      unfolding candidates_def by (rule image_eqI)
    have t_not_kn: "t \<notin> set ?kn"
    proof
      assume "t \<in> set ?kn"
      then have "t \<in> set ?kb"
        using candidates_nonempty [OF tc] by (rule remove_empty_keeps)
      with new show False by simp
    qed
    have k': "knowledge (fst (pass ai)) = ?kb @ infer ?kb" by (simp add: bi)
    let ?new = "candidates h w M - set (?kb @ infer ?kb)"
    let ?old = "candidates h w M - set ?kn"
    have "?new \<subseteq> ?old"
    proof
      fix u assume u: "u \<in> ?new"
      then have uc: "u \<in> candidates h w M" and ukb: "u \<notin> set ?kb" by simp_all
      have "u \<notin> set ?kn"
      proof
        assume "u \<in> set ?kn"
        then have "u \<in> set ?kb"
          using candidates_nonempty [OF uc] by (rule remove_empty_keeps)
        with ukb show False by simp
      qed
      with uc show "u \<in> ?old" by simp
    qed
    then have "card ?new < card ?old"
    proof (rule card_less_witness [rotated])
      show "finite ?old" by simp
      show "t \<in> ?old" using tc t_not_kn by simp
      show "t \<notin> ?new" using t by simp
    qed
    then have 2: "snd (progress h w M (fst (pass ai))) < snd (progress h w M ai)"
      unfolding progress_def snd_conv k' .
    have "mines (fst (pass ai)) = mines ai" and "safes (fst (pass ai)) = safes ai"
      using e by simp_all
    then have 1: "fst (progress h w M (fst (pass ai))) = fst (progress h w M ai)"
      unfolding progress_def fst_conv by (rule arg_cong2 [where f = "\<lambda>a b. card (?U - (a \<union> b))"])
    from 1 2 show ?thesis
      by (cases "progress h w M (fst (pass ai))"; cases "progress h w M ai") simp
  qed
qed

lemma fixpoint_terminates:
  assumes "sound h w M ai" and "separated ai"
  shows "\<exists>r. fixpoint ai = Some r"
proof -
  have "wf (inv_image (less_than <*lex*> less_than) (progress h w M))"
    by (intro wf_inv_image wf_lex_prod wf_less_than)
  then show ?thesis
    using assms
  proof (induction ai rule: wf_induct_rule)
    case (less ai)
    show ?case
    proof (cases "snd (pass ai)")
      case True
      from less.prems True have "(fst (pass ai), ai) \<in> inv_image (less_than <*lex*> less_than) (progress h w M)"
        using pass_decreases [of h w M ai] by (simp only: in_inv_image)
      moreover have "sound h w M (fst (pass ai))" using less.prems(1) by (rule sound_pass)
      moreover have "separated (fst (pass ai))" using less.prems(2) by (rule separated_pass)
      ultimately have "\<exists>r. fixpoint (fst (pass ai)) = Some r"
        by (rule less.IH)
      then obtain r where "fixpoint (fst (pass ai)) = Some r" ..
      with True have "fixpoint ai = Some r"
        by (subst fixpoint.simps) (simp add: case_prod_beta)
      then show ?thesis by blast
    next
      case False
      then have "fixpoint ai = Some (fst (pass ai))"
        by (subst fixpoint.simps) (simp add: case_prod_beta)
      then show ?thesis by blast
    qed
  qed
qed

subsection \<open>Calls that agree with a board\<close>

lemma board_add_knowledge:
  assumes "sound h w M ai" and "separated ai" and "M \<subseteq> board_cells h w"
    and "board_call h w M (Add_knowledge c n)"
  shows "\<exists>ai'. add_knowledge ai c n = Some ai' \<and> sound h w M ai' \<and> separated ai'"
proof -
  from assms(4) have c: "c \<notin> M" and n: "n = nearby_mines h w M c" by simp_all
  have s: "sound h w M (integrate ai c n)"
    unfolding n using assms(1,3) c by (rule sound_integrate)
  have p: "separated (integrate ai c n)" using assms(2) by (rule separated_integrate)
  from s p obtain r where r: "fixpoint (integrate ai c n) = Some r"
    using fixpoint_terminates by blast
  from r s have "sound h w M r"
    by (rule fixpoint_invariant) (rule sound_pass)
  moreover from r p have "separated r"
    by (rule fixpoint_invariant) (rule separated_pass)
  ultimately show ?thesis using r by (simp add: add_knowledge_def)
qed

lemma board_exec:
  assumes "sound h w M ai" and "separated ai" and "M \<subseteq> board_cells h w"
    and "board_call h w M cl"
  shows "\<exists>ai'. exec ai cl = Some ai' \<and> sound h w M ai' \<and> separated ai'"
proof (cases cl)
  case (Add_knowledge c n)
  with assms board_add_knowledge [of h w M ai c n] show ?thesis by simp
next
  case (Mark_mine c)
  with assms show ?thesis by (simp add: sound_mark_mine separated_mark_mine)
next
  case (Mark_safe c)
  with assms show ?thesis by (simp add: sound_mark_safe separated_mark_safe)
qed

lemma board_run:
  assumes "M \<subseteq> board_cells h w"
  shows "sound h w M ai \<Longrightarrow> separated ai \<Longrightarrow> list_all (board_call h w M) cs \<Longrightarrow>
         \<exists>ai'. run ai cs = Some ai' \<and> sound h w M ai' \<and> separated ai'"
proof (induction cs arbitrary: ai)
  case Nil
  then show ?case by simp
next
  case (Cons cl cs)
  from Cons.prems(3) have cl: "board_call h w M cl" and cs: "list_all (board_call h w M) cs"
    by simp_all
  from board_exec [OF Cons.prems(1,2) assms cl]
  obtain a where a: "exec ai cl = Some a" and sa: "sound h w M a" and pa: "separated a"
    by blast
  from Cons.IH [OF sa pa cs] a show ?case by simp
qed

text \<open>
  C3. On a board with mines \<open>M\<close>, after any sequence of calls that agree with the board,
  every further \<open>add_knowledge\<close> call that agrees with the board returns: the calls
  before it have returned, and the fixed-point loop of this call ends after finitely
  many passes.
\<close>

theorem fixpoint_loop_terminates:
  assumes "M \<subseteq> board_cells h w" and "list_all (board_call h w M) cs"
    and "board_call h w M (Add_knowledge c n)"
  shows "\<exists>ai ai'. run (init_ai h w) cs = Some ai \<and> fixpoint (integrate ai c n) = Some ai' \<and>
           add_knowledge ai c n = Some ai'"
proof -
  from board_run [OF assms(1) sound_init separated_init assms(2)]
  obtain ai where r: "run (init_ai h w) cs = Some ai" and s: "sound h w M ai" and p: "separated ai"
    by blast
  from board_add_knowledge [OF s p assms(1,3)]
  obtain ai' where "add_knowledge ai c n = Some ai'" by blast
  with r show ?thesis by (auto simp: add_knowledge_def)
qed

theorem fixpoint_loop_terminates_witness:
  "{(0, 2)} \<subseteq> board_cells 2 4 \<and>
   list_all (board_call 2 4 {(0, 2)})
     [Add_knowledge (0, 3) 1, Add_knowledge (1, 3) 1, Add_knowledge (0, 1) 1] \<and>
   board_call 2 4 {(0, 2)} (Add_knowledge (1, 2) 1) \<and>
   (\<exists>ai ai'. run (init_ai 2 4)
       [Add_knowledge (0, 3) 1, Add_knowledge (1, 3) 1, Add_knowledge (0, 1) 1] = Some ai \<and>
     fixpoint (integrate ai (1, 2) 1) = Some ai' \<and> add_knowledge ai (1, 2) 1 = Some ai')"
proof -
  have h1: "{(0, 2)} \<subseteq> board_cells 2 4" by code_simp
  have h2: "list_all (board_call 2 4 {(0, 2)})
     [Add_knowledge (0, 3) 1, Add_knowledge (1, 3) 1, Add_knowledge (0, 1) 1]" by code_simp
  have h3: "board_call 2 4 {(0, 2)} (Add_knowledge (1, 2) 1)" by code_simp
  from fixpoint_loop_terminates [OF h1 h2 h3] h1 h2 h3 show ?thesis by blast
qed

text \<open>
  C1, as amended. On a board with mines \<open>M\<close>, after any sequence of calls that agree with
  the board (each observed cell is on the board and is no mine, and its count is the
  number of mines the board reports around it), the known mines and the known safe cells
  are disjoint.
\<close>

theorem board_calls_keep_mines_and_safes_disjoint:
  assumes "M \<subseteq> board_cells h w" and "list_all (board_call h w M) cs"
    and "run (init_ai h w) cs = Some ai"
  shows "mines ai \<inter> safes ai = {}"
proof -
  from board_run [OF assms(1) sound_init separated_init assms(2)] assms(3)
  have "sound h w M ai" by auto
  then show ?thesis by (auto simp: sound_def)
qed

theorem board_calls_keep_mines_and_safes_disjoint_witness:
  "{(0, 1)} \<subseteq> board_cells 1 5 \<and>
   list_all (board_call 1 5 {(0, 1)}) [Add_knowledge (0, 0) 1, Add_knowledge (0, 3) 0] \<and>
   run (init_ai 1 5) [Add_knowledge (0, 0) 1, Add_knowledge (0, 3) 0] =
     Some \<lparr>height = 1, width = 5, moves_made = {(0, 3), (0, 0)}, mines = {(0, 1)},
            safes = {(0, 4), (0, 2), (0, 3), (0, 0)}, knowledge = []\<rparr> \<and>
   {(0, 1)} \<inter> {(0, 4), (0, 2), (0, 3), (0, 0)} = ({} :: cell set)"
proof -
  have h1: "{(0, 1)} \<subseteq> board_cells 1 5" by code_simp
  have h2: "list_all (board_call 1 5 {(0, 1)}) [Add_knowledge (0, 0) 1, Add_knowledge (0, 3) 0]"
    by code_simp
  have r: "run (init_ai 1 5) [Add_knowledge (0, 0) 1, Add_knowledge (0, 3) 0] =
     Some \<lparr>height = 1, width = 5, moves_made = {(0, 3), (0, 0)}, mines = {(0, 1)},
            safes = {(0, 4), (0, 2), (0, 3), (0, 0)}, knowledge = []\<rparr>"
    by code_simp
  from board_calls_keep_mines_and_safes_disjoint [OF h1 h2 r] h1 h2 r show ?thesis by simp
qed

theorem mines_and_safes_overlap_counterexample:
  "run (init_ai 1 2) [Add_knowledge (0, 0) 1, Add_knowledge (0, 1) 0] =
     Some \<lparr>height = 1, width = 2, moves_made = {(0, 1), (0, 0)}, mines = {(0, 1)},
            safes = {(0, 1), (0, 0)}, knowledge = []\<rparr> \<and>
   {(0, 1)} \<inter> {(0, 1), (0, 0)} = {(0 :: int, 1 :: int)}"
  by code_simp

text \<open>
  C9, as amended. On a board with mines \<open>M\<close>, after any sequence of calls that agree with
  the board, every stored sentence has a count between 0 and the number of its cells.
\<close>

theorem board_calls_keep_counts_in_range:
  assumes "M \<subseteq> board_cells h w" and "list_all (board_call h w M) cs"
    and "run (init_ai h w) cs = Some ai"
  shows "\<forall>s\<in>set (knowledge ai). 0 \<le> count s \<and> count s \<le> int (card (cells s))"
proof
  fix s assume s: "s \<in> set (knowledge ai)"
  from board_run [OF assms(1) sound_init separated_init assms(2)] assms(3)
  have "sound h w M ai" by auto
  with s have f: "finite (cells s)" and c: "count s = int (card (cells s \<inter> M))"
    by (simp_all add: sound_def)
  from f have "card (cells s \<inter> M) \<le> card (cells s)" by (intro card_mono) simp_all
  with c show "0 \<le> count s \<and> count s \<le> int (card (cells s))" by simp
qed

theorem board_calls_keep_counts_in_range_witness:
  "{(0, 0)} \<subseteq> board_cells 3 3 \<and>
   list_all (board_call 3 3 {(0, 0)}) [Add_knowledge (1, 1) 1, Add_knowledge (0, 2) 0] \<and>
   run (init_ai 3 3) [Add_knowledge (1, 1) 1, Add_knowledge (0, 2) 0] =
     Some \<lparr>height = 3, width = 3, moves_made = {(0, 2), (1, 1)}, mines = {},
            safes = {(1, 2), (0, 1), (0, 2), (1, 1)},
            knowledge = [\<lparr>cells = {(2, 2), (2, 1), (2, 0), (1, 0), (0, 0)}, count = 1\<rparr>]\<rparr> \<and>
   0 \<le> count \<lparr>cells = {(2, 2), (2, 1), (2, 0), (1, 0), (0, 0)}, count = 1\<rparr> \<and>
   count \<lparr>cells = {(2, 2), (2, 1), (2, 0), (1, 0), (0, 0)}, count = 1\<rparr>
     \<le> int (card (cells \<lparr>cells = {(2, 2), (2, 1), (2, 0), (1, 0), (0, 0)}, count = 1\<rparr>))"
proof -
  have h1: "{(0, 0)} \<subseteq> board_cells 3 3" by code_simp
  have h2: "list_all (board_call 3 3 {(0, 0)}) [Add_knowledge (1, 1) 1, Add_knowledge (0, 2) 0]"
    by code_simp
  have r: "run (init_ai 3 3) [Add_knowledge (1, 1) 1, Add_knowledge (0, 2) 0] =
     Some \<lparr>height = 3, width = 3, moves_made = {(0, 2), (1, 1)}, mines = {},
            safes = {(1, 2), (0, 1), (0, 2), (1, 1)},
            knowledge = [\<lparr>cells = {(2, 2), (2, 1), (2, 0), (1, 0), (0, 0)}, count = 1\<rparr>]\<rparr>"
    by code_simp
  from board_calls_keep_counts_in_range [OF h1 h2 r] h1 h2 r show ?thesis by simp
qed

theorem count_out_of_range_counterexample:
  "map_option knowledge (run (init_ai 1 2) [Add_knowledge (0, 0) 5]) =
     Some [\<lparr>cells = {(0, 1)}, count = 5\<rparr>] \<and>
   \<not> count \<lparr>cells = {(0, 1)}, count = 5\<rparr> \<le> int (card (cells \<lparr>cells = {(0, 1)}, count = 5\<rparr>))"
  by code_simp

subsection \<open>A cell observed twice\<close>




subsection \<open>A negative adjusted count\<close>

text \<open>
  C8, as amended. If the reported count is below the number of known mines in the 3x3
  block around the cell, \<open>add_knowledge\<close> raises nothing: the sentence it appends to the
  knowledge has the negative adjusted count (the reported count minus that number), and
  the fixed-point loop runs on the knowledge with this sentence.
\<close>

theorem negative_count_is_stored:
  assumes "n < int (length (filter (\<lambda>x. x \<in> mines ai) (block c)))"
  shows "knowledge (integrate ai c n) \<noteq> [] \<and>
         count (last (knowledge (integrate ai c n))) =
           n - int (length (filter (\<lambda>x. x \<in> mines ai) (block c))) \<and>
         count (last (knowledge (integrate ai c n))) < 0 \<and>
         add_knowledge ai c n = fixpoint (integrate ai c n)"
  using assms by (simp add: knowledge_integrate count_new_sentence mark_safe_def add_knowledge_def)

theorem negative_count_is_stored_witness:
  "(0::int) < int (length (filter (\<lambda>x. x \<in> mines \<lparr>height = 1, width = 4, moves_made = {(0, 0)},
        mines = {(0, 1)}, safes = {(0, 0)}, knowledge = []\<rparr>) (block (0, 2)))) \<and>
   count (last (knowledge (integrate \<lparr>height = 1, width = 4, moves_made = {(0, 0)},
        mines = {(0, 1)}, safes = {(0, 0)}, knowledge = []\<rparr> (0, 2) 0))) = - 1 \<and>
   add_knowledge \<lparr>height = 1, width = 4, moves_made = {(0, 0)},
        mines = {(0, 1)}, safes = {(0, 0)}, knowledge = []\<rparr> (0, 2) 0 =
     Some \<lparr>height = 1, width = 4, moves_made = {(0, 2), (0, 0)}, mines = {(0, 1)},
            safes = {(0, 2), (0, 0)}, knowledge = [\<lparr>cells = {(0, 3)}, count = - 1\<rparr>]\<rparr>"
proof -
  let ?ai = "\<lparr>height = 1, width = 4, moves_made = {(0::int, 0::int)},
        mines = {(0, 1)}, safes = {(0, 0)}, knowledge = []\<rparr>"
  have h: "(0::int) < int (length (filter (\<lambda>x. x \<in> mines ?ai) (block (0, 2))))"
    by code_simp
  have k: "int (length (filter (\<lambda>x. x \<in> mines ?ai) (block (0, 2)))) = 1"
    by code_simp
  have f: "fixpoint (integrate ?ai (0, 2) 0) =
     Some \<lparr>height = 1, width = 4, moves_made = {(0, 2), (0, 0)}, mines = {(0, 1)},
            safes = {(0, 2), (0, 0)}, knowledge = [\<lparr>cells = {(0, 3)}, count = - 1\<rparr>]\<rparr>"
    by code_simp
  from negative_count_is_stored [OF h] h k f show ?thesis by simp
qed

theorem negative_count_counterexample:
  "run (init_ai 1 4) [Add_knowledge (0, 0) 1, Add_knowledge (0, 2) 0] =
     Some \<lparr>height = 1, width = 4, moves_made = {(0, 2), (0, 0)}, mines = {(0, 1)},
            safes = {(0, 2), (0, 0)}, knowledge = [\<lparr>cells = {(0, 3)}, count = - 1\<rparr>]\<rparr>"
  by code_simp

subsection \<open>Equal sentences and empty sentences that stay\<close>

text \<open>
  C6. On a 2x3 board with one mine at \<open>(0, 0)\<close> the two observations of \<open>(0, 1)\<close> and
  \<open>(1, 1)\<close> agree with the board, and after them the knowledge holds the same sentence
  twice: the new sentence is appended without a look at the stored ones.
\<close>

theorem equal_sentences_are_stored:
  "list_all (board_call 2 3 {(0, 0)}) [Add_knowledge (0, 1) 1, Add_knowledge (1, 1) 1] \<and>
   map_option knowledge (run (init_ai 2 3) [Add_knowledge (0, 1) 1, Add_knowledge (1, 1) 1]) =
     Some [\<lparr>cells = {(0, 0), (0, 2), (1, 0), (1, 2)}, count = 1\<rparr>,
           \<lparr>cells = {(0, 0), (0, 2), (1, 0), (1, 2)}, count = 1\<rparr>] \<and>
   \<not> distinct [\<lparr>cells = {(0, 0), (0, 2), (1, 0), (1, 2)}, count = 1\<rparr>,
                \<lparr>cells = {(0, 0), (0, 2), (1, 0), (1, 2)}, count = 1\<rparr>]"
  by code_simp

text \<open>
  C7. On a 2x4 board with one mine at \<open>(0, 2)\<close> the five observations below agree with
  the board, and when the last \<open>add_knowledge\<close> returns the knowledge holds a sentence
  with no cells: the loop that removes the empty sentences deletes from the list it
  iterates over and so skips the sentence after each one it removes.
\<close>

theorem empty_sentence_remains:
  "list_all (board_call 2 4 {(0, 2)})
     [Add_knowledge (0, 3) 1, Add_knowledge (1, 3) 1, Add_knowledge (0, 1) 1,
      Add_knowledge (1, 1) 1, Add_knowledge (1, 2) 1] \<and>
   map_option knowledge (run (init_ai 2 4)
     [Add_knowledge (0, 3) 1, Add_knowledge (1, 3) 1, Add_knowledge (0, 1) 1,
      Add_knowledge (1, 1) 1, Add_knowledge (1, 2) 1]) = Some [\<lparr>cells = {}, count = 0\<rparr>] \<and>
   remove_empty 0 [\<lparr>cells = {}, count = 0\<rparr>, \<lparr>cells = {}, count = 0\<rparr>] =
     [\<lparr>cells = {}, count = 0\<rparr>]"
  by code_simp

end
